theory Spec2Isabelle
  imports Complex_Main "HOL-Library.Word"
begin

unbundle bit_operations_syntax

section \<open>CryptoSteg: the LSB steganography module\<close>

text \<open>
  A shallow embedding of \<^verbatim>\<open>static/steganography.js\<close> (class \<^verbatim>\<open>Steganography\<close>).
  The canvas work at the start and end of \<^verbatim>\<open>hideData\<close> and \<^verbatim>\<open>extractData\<close> is outside
  the model: both functions are modelled from the point where \<^verbatim>\<open>imageData.data\<close>, a
  \<^verbatim>\<open>Uint8ClampedArray\<close>, is at hand, and \<^verbatim>\<open>hideData\<close> yields the mutated array; the
  image that \<^verbatim>\<open>extractData\<close> is given is taken to hold exactly the samples that were
  stored.
\<close>

subsection \<open>Data\<close>

text \<open>
  A sample of the typed array is an 8-bit word, the array a list of them. A JavaScript
  string is a list of UTF-16 code units. The strings of \<^verbatim>\<open>'0'\<close> and \<^verbatim>\<open>'1'\<close> that the module
  builds are lists of booleans (\<open>True\<close> for \<^verbatim>\<open>'1'\<close>).
\<close>

type_synonym sample = "8 word"
type_synonym buffer = "sample list"
type_synonym code_unit = "16 word"
type_synonym js_string = "code_unit list"
type_synonym binary = "bool list"

definition lit :: "string \<Rightarrow> js_string" where
  "lit s = map of_char s"

text \<open>The messages of the \<^verbatim>\<open>Error\<close> objects the module throws, one constructor each.\<close>

datatype error =
    CapacityExceeded nat  \<comment> \<open>\<^verbatim>\<open>Data too large for this image. Maximum: N characters\<close>\<close>
  | NoHiddenData          \<comment> \<open>\<^verbatim>\<open>No hidden data found or invalid data\<close>\<close>
  | NoFormatOrEndMarker   \<comment> \<open>\<^verbatim>\<open>Data extraction failed: No valid data format or end marker found\<close>\<close>
  | PasswordRequired      \<comment> \<open>\<^verbatim>\<open>This data is encrypted. Please provide a password.\<close>\<close>
  | DecryptionFailed      \<comment> \<open>\<^verbatim>\<open>Decryption failed: Incorrect password or corrupted data\<close>\<close>
  | DecodeAmbiguous       \<comment> \<open>\<^verbatim>\<open>Unknown data format. Could not extract hidden text.\<close>\<close>
  | ConstAssignment       \<comment> \<open>the engine's \<^verbatim>\<open>TypeError: Assignment to constant variable.\<close>\<close>

text \<open>
  \<^verbatim>\<open>CryptoJS.AES\<close> is a library outside the repository, so the cipher is a parameter:
  \<open>encrypt text password\<close> is the string of \<^verbatim>\<open>CryptoJS.AES.encrypt(text, password)\<close>, and
  \<open>decrypt text password\<close> the string of
  \<^verbatim>\<open>CryptoJS.AES.decrypt(text, password).toString(CryptoJS.enc.Utf8)\<close>, \<open>None\<close> when the
  call throws.
\<close>

record cipher =
  encrypt :: "js_string \<Rightarrow> js_string \<Rightarrow> js_string"
  decrypt :: "js_string \<Rightarrow> js_string \<Rightarrow> js_string option"

definition plain_cipher :: cipher where
  "plain_cipher = \<lparr>encrypt = (\<lambda>text password. text), decrypt = (\<lambda>text password. Some text)\<rparr>"

subsection \<open>Strings of binary digits\<close>

text \<open>\<^verbatim>\<open>Number.prototype.toString(2)\<close> on a non-negative integer: most significant digit first.\<close>

fun toString2 :: "nat \<Rightarrow> binary" where
  "toString2 n = (if n < 2 then [odd n] else toString2 (n div 2) @ [odd n])"

declare toString2.simps [simp del]

text \<open>\<^verbatim>\<open>s.padStart(k, '0')\<close>.\<close>

definition padStart :: "nat \<Rightarrow> binary \<Rightarrow> binary" where
  "padStart k s = replicate (k - length s) False @ s"

text \<open>\<^verbatim>\<open>parseInt(s, 2)\<close> on a non-empty string of binary digits.\<close>

definition parseInt2 :: "binary \<Rightarrow> nat" where
  "parseInt2 s = foldl (\<lambda>a b. 2 * a + (if b then 1 else 0)) 0 s"

definition textToBinary :: "js_string \<Rightarrow> binary" where
  "textToBinary text = concat (map (\<lambda>charCode. padStart 8 (toString2 (unat charCode))) text)"

definition numberToBinary :: "nat \<Rightarrow> nat \<Rightarrow> binary" where
  "numberToBinary number bitLength = padStart bitLength (toString2 number)"

text \<open>
  \<^verbatim>\<open>binaryToText\<close> walks the string in steps of 8; \<^verbatim>\<open>substr(i, 8)\<close> is shorter than 8 only at
  the end, and such a tail is dropped.
\<close>

function binaryToText :: "binary \<Rightarrow> js_string" where
  "binaryToText binary =
     (if binary = [] then []
      else (let byte = take 8 binary
            in (if length byte = 8 then [of_nat (parseInt2 byte)] else []))
           @ binaryToText (drop 8 binary))"
  by pat_completeness auto
termination
  by (relation "measure length") auto

declare binaryToText.simps [simp del]

subsection \<open>String search\<close>

definition startsWith :: "js_string \<Rightarrow> js_string \<Rightarrow> bool" where
  "startsWith s p = (take (length p) s = p)"

text \<open>\<^verbatim>\<open>s.indexOf(p)\<close>: the first position where \<open>p\<close> occurs; \<open>None\<close> stands for \<^verbatim>\<open>-1\<close>.\<close>

fun indexOf :: "js_string \<Rightarrow> js_string \<Rightarrow> nat option" where
  "indexOf [] p = (if p = [] then Some 0 else None)"
| "indexOf (c # s) p =
     (if startsWith (c # s) p then Some 0
      else (case indexOf s p of None \<Rightarrow> None | Some i \<Rightarrow> Some (Suc i)))"

definition includesStr :: "js_string \<Rightarrow> js_string \<Rightarrow> bool" where
  "includesStr s p = (indexOf s p \<noteq> None)"

text \<open>\<^verbatim>\<open>s.split(p)[0]\<close>: the text before the first occurrence of \<open>p\<close>, all of \<open>s\<close> without one.\<close>

definition split0 :: "js_string \<Rightarrow> js_string \<Rightarrow> js_string" where
  "split0 s p = (case indexOf s p of None \<Rightarrow> s | Some i \<Rightarrow> take i s)"

definition ENC :: js_string where "ENC = lit ''ENC:''"
definition TXT :: js_string where "TXT = lit ''TXT:''"
definition EOF :: js_string where "EOF = lit ''<<EOF>>''"

subsection \<open>hideData\<close>

text \<open>\<^verbatim>\<open>Math.floor((data.length / 4) * 3 / 8)\<close>.\<close>

definition maxDataSize :: "buffer \<Rightarrow> nat" where
  "maxDataSize data = nat \<lfloor>(rat_of_nat (length data) / 4) * 3 / 8\<rfloor>"

text \<open>
  \<^verbatim>\<open>dataToHide\<close>: the text, encrypted when the password is not empty, between the prefix
  and the end marker.
\<close>

definition dataToHide :: "cipher \<Rightarrow> js_string \<Rightarrow> js_string \<Rightarrow> js_string" where
  "dataToHide C text password =
     (let processedText = (if password \<noteq> [] then encrypt C text password else text);
          prefix = (if password \<noteq> [] then ENC else TXT)
      in prefix @ processedText @ EOF)"

text \<open>
  Both loops of \<^verbatim>\<open>hideData\<close> change the array only through assignments of the form
  \<^verbatim>\<open>data[k] = (data[k] & 0xFE) | bit\<close>. The model lists these assignments in program
  order, as pairs of index and bit, and then runs them. An assignment to a typed array
  at an index beyond its length does nothing.
\<close>

type_synonym lsb_write = "nat \<times> bool"

definition storeLsb :: "lsb_write \<Rightarrow> buffer \<Rightarrow> buffer" where
  "storeLsb w data =
     (case w of (k, b) \<Rightarrow>
        if k < length data then data[k := (data ! k AND 0xFE) OR (if b then 1 else 0)]
        else data)"

definition runWrites :: "lsb_write list \<Rightarrow> buffer \<Rightarrow> buffer" where
  "runWrites ws data = fold storeLsb ws data"

text \<open>The header loop: \<^verbatim>\<open>for (let i = 0; i < 32; i++)\<close>, with no guard.\<close>

definition headerWrites :: "binary \<Rightarrow> lsb_write list" where
  "headerWrites dataLengthBinary = map (\<lambda>i. (i, dataLengthBinary ! i)) [0..<32]"

text \<open>
  The payload loop. \<open>addr i\<close> is \<^verbatim>\<open>dataIndex\<close> of iteration \<open>i\<close>; \<open>hideBit\<close> is the rest of
  the loop body: \<^verbatim>\<open>continue\<close> on an alpha position, the guarded assignment otherwise.
\<close>

definition addr :: "nat \<Rightarrow> nat" where
  "addr i = 32 + i + (32 + i) div 3"

definition hideBit :: "nat \<Rightarrow> nat \<Rightarrow> bool \<Rightarrow> lsb_write list" where
  "hideBit n dataIndex b =
     (if (dataIndex + 1) mod 4 = 0 then []
      else if dataIndex < n then [(dataIndex, b)]
      else [])"

definition payloadWrites :: "nat \<Rightarrow> binary \<Rightarrow> lsb_write list" where
  "payloadWrites n binaryData =
     concat (map (\<lambda>i. hideBit n (addr i) (binaryData ! i)) [0..<length binaryData])"

definition hideWrites :: "cipher \<Rightarrow> buffer \<Rightarrow> js_string \<Rightarrow> js_string \<Rightarrow> lsb_write list" where
  "hideWrites C data text password =
     (let d = dataToHide C text password
      in headerWrites (numberToBinary (length d) 32)
         @ payloadWrites (length data) (textToBinary d))"

definition hideData :: "cipher \<Rightarrow> buffer \<Rightarrow> js_string \<Rightarrow> js_string \<Rightarrow> error + buffer" where
  "hideData C data text password =
     (if length (dataToHide C text password) > maxDataSize data
      then Inl (CapacityExceeded (maxDataSize data))
      else Inr (runWrites (hideWrites C data text password) data))"

subsection \<open>extractData\<close>

text \<open>\<^verbatim>\<open>data[i] & 1\<close>; a read beyond the array is \<^verbatim>\<open>undefined\<close>, and \<^verbatim>\<open>undefined & 1\<close> is 0.\<close>

definition lsbAt :: "buffer \<Rightarrow> nat \<Rightarrow> bool" where
  "lsbAt data i = (if i < length data then data ! i AND 1 \<noteq> 0 else False)"

definition readHeader :: "buffer \<Rightarrow> nat" where
  "readHeader data = parseInt2 (map (lsbAt data) [0..<32])"

text \<open>
  The collecting loop \<^verbatim>\<open>for (let i = 32; bitCount < bitsToExtract; i++)\<close>. Its only exit is
  \<open>bitCount\<close> reaching \<open>bitsToExtract\<close>, so it is a partial function: \<open>None\<close> is the loop
  that never ends. (\<open>i\<close> is unbounded here; the JavaScript number stops growing at
  \<open>2^53\<close>, which leaves such a loop running just the same.)
\<close>

partial_function (option) collectBits ::
  "buffer \<Rightarrow> nat \<Rightarrow> nat \<Rightarrow> nat \<Rightarrow> binary \<Rightarrow> binary option" where
  "collectBits data bitsToExtract i bitCount extractedBinary =
     (if bitCount < bitsToExtract then
        (if (i + 1) mod 4 = 0 then
           collectBits data bitsToExtract (i + 1) bitCount extractedBinary
         else if i < length data then
           collectBits data bitsToExtract (i + 1) (bitCount + 1)
             (extractedBinary @ [data ! i AND 1 \<noteq> 0])
         else collectBits data bitsToExtract (i + 1) bitCount extractedBinary)
      else Some extractedBinary)"

declare collectBits.simps [code]

text \<open>
  The indices from \<open>i\<close> up to \<open>n\<close> that the loop does not skip, in the order the loop
  visits them. This list is not in the source; the lemmas on \<open>collectBits\<close> are stated
  with it.
\<close>

definition slots :: "nat \<Rightarrow> nat \<Rightarrow> nat list" where
  "slots i n = filter (\<lambda>j. (j + 1) mod 4 \<noteq> 0) [i..<n]"

text \<open>\<^verbatim>\<open>/[^\x20-\x7E]/\<close> removes what is not printable ASCII.\<close>

definition printable :: "code_unit \<Rightarrow> bool" where
  "printable c = (0x20 \<le> c \<and> c \<le> 0x7E)"

datatype dataType = Unknown | Encrypted | Plaintext

text \<open>\<^verbatim>\<open>cleanText\<close>: the text before the end marker, if there is one.\<close>

definition cleanTextOf :: "js_string \<Rightarrow> js_string" where
  "cleanTextOf extractedText =
     (if includesStr extractedText EOF then split0 extractedText EOF else extractedText)"

text \<open>The format inference: \<^verbatim>\<open>dataType\<close> and \<^verbatim>\<open>processedText\<close> after the four-way test.\<close>

definition inferFormat :: "js_string \<Rightarrow> dataType \<times> js_string" where
  "inferFormat cleanText =
     (if startsWith cleanText ENC then (Encrypted, drop 4 cleanText)
      else if startsWith cleanText TXT then (Plaintext, drop 4 cleanText)
      else if includesStr (take 20 cleanText) ENC then
        (case indexOf cleanText ENC of
           Some encIndex \<Rightarrow> (Encrypted, drop (encIndex + 4) cleanText)
         | None \<Rightarrow> (Encrypted, drop 3 cleanText))
      else if includesStr (take 20 cleanText) TXT then
        (case indexOf cleanText TXT of
           Some txtIndex \<Rightarrow> (Plaintext, drop (txtIndex + 4) cleanText)
         | None \<Rightarrow> (Plaintext, drop 3 cleanText))
      else (Unknown, cleanText))"

text \<open>The last \<^verbatim>\<open>if\<close> chain of \<^verbatim>\<open>extractData\<close>: what is resolved or thrown for each data type.\<close>

definition deliver ::
  "cipher \<Rightarrow> dataType \<Rightarrow> js_string \<Rightarrow> js_string \<Rightarrow> js_string \<Rightarrow> error + js_string" where
  "deliver C dt processedText cleanText password =
     (case dt of
        Encrypted \<Rightarrow>
          (if password = [] then Inl PasswordRequired
           else (case decrypt C processedText password of
                   None \<Rightarrow> Inl DecryptionFailed
                 | Some decrypted \<Rightarrow>
                     if decrypted = [] then Inl DecryptionFailed else Inr decrypted))
      | Plaintext \<Rightarrow> Inr processedText
      | Unknown \<Rightarrow>
          (let possibleText = filter printable cleanText
           in if length possibleText > 10
              then Inr (lit ''Partial recovery: '' @ possibleText)
              else Inl DecodeAmbiguous))"

text \<open>Everything after \<^verbatim>\<open>binaryToText\<close>: the marker check, the inference, the delivery.\<close>

definition unframe :: "cipher \<Rightarrow> js_string \<Rightarrow> js_string \<Rightarrow> error + js_string" where
  "unframe C extractedText password =
     (if \<not> includesStr extractedText EOF
         \<and> \<not> (includesStr extractedText TXT \<or> includesStr extractedText ENC)
      then Inl NoFormatOrEndMarker
      else (let cleanText = cleanTextOf extractedText
            in case inferFormat cleanText of
                 (dt, processedText) \<Rightarrow> deliver C dt processedText cleanText password))"

definition extractData :: "cipher \<Rightarrow> buffer \<Rightarrow> js_string \<Rightarrow> (error + js_string) option" where
  "extractData C data password =
     (let len = readHeader data
      in if len \<le> 0 \<or> rat_of_nat len > rat_of_nat (length data) / 4
         then Some (Inl NoHiddenData)
         else (case collectBits data (len * 8) 32 0 [] of
                 None \<Rightarrow> None
               | Some extractedBinary \<Rightarrow>
                   Some (unframe C (binaryToText extractedBinary) password)))"

subsection \<open>The older copy of extractData\<close>

text \<open>
  The repository holds a second, older copy of the module. Its \<^verbatim>\<open>hideData\<close> and its
  collecting loop are the same; its \<^verbatim>\<open>extractData\<close> differs after the end-marker step:
  \<^verbatim>\<open>cleanText\<close> is declared \<^verbatim>\<open>const\<close>, the two searching branches assign to it
  (\<^verbatim>\<open>cleanText = cleanText.substring(encIndex)\<close>), and the prefix is removed at delivery.
  An assignment to a \<^verbatim>\<open>const\<close> binding throws a \<^verbatim>\<open>TypeError\<close> when it is run, and the
  \<^verbatim>\<open>catch\<close> of \<^verbatim>\<open>extractData\<close> rejects with it.
\<close>

definition deliver_older ::
  "cipher \<Rightarrow> dataType \<Rightarrow> js_string \<Rightarrow> js_string \<Rightarrow> error + js_string" where
  "deliver_older C dt cleanText password =
     (case dt of
        Encrypted \<Rightarrow>
          (if password = [] then Inl PasswordRequired
           else (case decrypt C (drop 4 cleanText) password of
                   None \<Rightarrow> Inl DecryptionFailed
                 | Some decrypted \<Rightarrow>
                     if decrypted = [] then Inl DecryptionFailed else Inr decrypted))
      | Plaintext \<Rightarrow> Inr (drop 4 cleanText)
      | Unknown \<Rightarrow>
          (let possibleText = filter printable cleanText
           in if length possibleText > 10
              then Inr (lit ''Partial recovery: '' @ possibleText)
              else Inl DecodeAmbiguous))"

definition unframe_older :: "cipher \<Rightarrow> js_string \<Rightarrow> js_string \<Rightarrow> error + js_string" where
  "unframe_older C extractedText password =
     (if \<not> includesStr extractedText EOF
         \<and> \<not> (includesStr extractedText TXT \<or> includesStr extractedText ENC)
      then Inl NoFormatOrEndMarker
      else (let cleanText = cleanTextOf extractedText
            in if startsWith cleanText ENC then deliver_older C Encrypted cleanText password
               else if startsWith cleanText TXT then deliver_older C Plaintext cleanText password
               else if includesStr (take 20 cleanText) ENC then Inl ConstAssignment
               else if includesStr (take 20 cleanText) TXT then Inl ConstAssignment
               else deliver_older C Unknown cleanText password))"

subsection \<open>A sample array\<close>

text \<open>
  The samples of a 7 by 8 image that carries, in the layout \<open>extractData\<close> reads, the 18
  bytes \<^verbatim>\<open>hello world<<EOF>>\<close>: the header 18 in bit 0 of the samples 0 to 31, the
  bits of the text in bit 0 of the samples from 32 on that are not at an alpha position,
  and 255 at the alpha positions from 32 on.
\<close>

definition recovery_image :: buffer where
  "recovery_image =
    [0, 0, 0, 0, 0, 0, 0, 0, 0, 0, 0, 0, 0, 0, 0, 0, 0, 0, 0, 0, 0, 0, 0, 0, 0, 0, 0,
     1, 0, 0, 1, 0, 0, 1, 1, 255, 0, 1, 0, 255, 0, 0, 0, 255, 1, 1, 0, 255, 0, 1, 0,
     255, 1, 0, 1, 255, 1, 0, 1, 255, 1, 0, 0, 255, 0, 1, 1, 255, 0, 1, 1, 255, 0, 0,
     0, 255, 1, 1, 0, 255, 1, 1, 1, 255, 1, 0, 0, 255, 1, 0, 0, 255, 0, 0, 0, 255, 0,
     1, 1, 255, 1, 0, 1, 255, 1, 1, 0, 255, 1, 1, 0, 255, 1, 1, 1, 255, 1, 0, 1, 255,
     1, 1, 0, 255, 0, 1, 0, 255, 0, 1, 1, 255, 0, 1, 1, 255, 0, 0, 0, 255, 1, 1, 0,
     255, 0, 1, 0, 255, 0, 0, 0, 255, 1, 1, 1, 255, 1, 0, 0, 255, 0, 0, 1, 255, 1, 1,
     1, 255, 0, 0, 0, 255, 1, 0, 0, 255, 0, 1, 0, 255, 1, 0, 1, 255, 0, 0, 1, 255, 1,
     1, 1, 255, 0, 1, 0, 255, 0, 0, 1, 255, 1, 0, 0, 255, 0, 1, 1, 255, 1, 1, 1, 255,
     0, 0, 0, 255, 1, 1, 1, 255, 1, 1, 0, 255]"

section \<open>Arithmetic of the two bounds\<close>

text \<open>The floating-point expressions of the two checks, as integer arithmetic.\<close>

lemma maxDataSize_div: "maxDataSize data = (3 * length data) div 32"
proof -
  have "(rat_of_nat (length data) / 4) * 3 / 8 = rat_of_nat (3 * length data) / rat_of_nat 32"
    by simp
  then show ?thesis
    unfolding maxDataSize_def by (simp only: floor_divide_of_nat_eq nat_int)
qed

lemma pixels_compare: "(rat_of_nat l > rat_of_nat n / 4) = (n < 4 * l)"
proof -
  have "(rat_of_nat n / 4 < rat_of_nat l) = (rat_of_nat n < rat_of_nat (4 * l))"
    by (simp add: pos_divide_less_eq mult.commute)
  also have "\<dots> = (n < 4 * l)"
    by (simp only: of_nat_less_iff)
  finally show ?thesis .
qed

section \<open>One assignment: bit 0 replaced, bits 1 to 7 kept\<close>

lemma fe_not1: "(0xFE :: 8 word) = NOT 1"
  by simp

lemma lsb_keep_high: "((w AND 0xFE) OR (if b then 1 else 0)) AND 0xFE = w AND (0xFE :: 8 word)"
  unfolding fe_not1
  by (rule bit_word_eqI) (auto simp: bit_and_iff bit_or_iff bit_not_iff bit_1_iff)

lemma lsb_odd: "((w :: 8 word) AND 1 \<noteq> 0) = odd w"
  by (simp only: and_one_eq even_iff_mod_2_eq_zero)

lemma lsb_stored: "(((w AND 0xFE) OR (if b then 1 else 0)) AND (1 :: 8 word) \<noteq> 0) = b"
  unfolding lsb_odd by (simp add: even_or_iff even_and_iff)

section \<open>The assignments of hideData\<close>

lemma length_storeLsb [simp]: "length (storeLsb w data) = length data"
  by (cases w) (simp add: storeLsb_def)

lemma length_runWrites [simp]: "length (runWrites ws data) = length data"
  unfolding runWrites_def by (induction ws arbitrary: data) simp_all

lemma storeLsb_other: "fst w \<noteq> j \<Longrightarrow> storeLsb w data ! j = data ! j"
  by (cases w) (simp add: storeLsb_def)

lemma storeLsb_high: "j < length data \<Longrightarrow> storeLsb w data ! j AND 0xFE = data ! j AND 0xFE"
  by (cases w) (auto simp: storeLsb_def nth_list_update lsb_keep_high)

lemma storeLsb_hit: "k < length data \<Longrightarrow> lsbAt (storeLsb (k, b) data) k = b"
  by (simp add: storeLsb_def lsbAt_def lsb_stored)

lemma runWrites_Cons: "runWrites (w # ws) data = runWrites ws (storeLsb w data)"
  by (simp add: runWrites_def)

lemma runWrites_append: "runWrites (ws @ vs) data = runWrites vs (runWrites ws data)"
  by (simp add: runWrites_def)

lemma runWrites_untouched: "j \<notin> fst ` set ws \<Longrightarrow> runWrites ws data ! j = data ! j"
proof (induction ws arbitrary: data)
  case Nil
  then show ?case by (simp add: runWrites_def)
next
  case (Cons w ws)
  then have "runWrites ws (storeLsb w data) ! j = storeLsb w data ! j" by simp
  moreover from Cons.prems have "fst w \<noteq> j" by auto
  ultimately show ?case by (simp add: runWrites_Cons storeLsb_other)
qed

lemma runWrites_high:
  "j < length data \<Longrightarrow> runWrites ws data ! j AND 0xFE = data ! j AND 0xFE"
proof (induction ws arbitrary: data)
  case Nil
  then show ?case by (simp add: runWrites_def)
next
  case (Cons w ws)
  then have "runWrites ws (storeLsb w data) ! j AND 0xFE = storeLsb w data ! j AND 0xFE"
    by simp
  with Cons.prems show ?case by (simp add: runWrites_Cons storeLsb_high)
qed

lemma lsbAt_cong: "length a = length b \<Longrightarrow> a ! k = b ! k \<Longrightarrow> lsbAt a k = lsbAt b k"
  by (simp add: lsbAt_def)

lemma runWrites_stored:
  "distinct (map fst ws) \<Longrightarrow> (k, b) \<in> set ws \<Longrightarrow> k < length data \<Longrightarrow>
   lsbAt (runWrites ws data) k = b"
proof (induction ws arbitrary: data)
  case Nil
  then show ?case by simp
next
  case (Cons w ws)
  show ?case
  proof (cases "w = (k, b)")
    case True
    with Cons.prems have "k \<notin> fst ` set ws" by auto
    then have "runWrites ws (storeLsb w data) ! k = storeLsb w data ! k"
      by (rule runWrites_untouched)
    then have "lsbAt (runWrites ws (storeLsb w data)) k = lsbAt (storeLsb w data) k"
      by (intro lsbAt_cong) simp_all
    with True Cons.prems show ?thesis by (simp add: runWrites_Cons storeLsb_hit)
  next
    case False
    with Cons.prems have "(k, b) \<in> set ws" "distinct (map fst ws)" by auto
    with Cons.IH [of "storeLsb w data"] Cons.prems show ?thesis
      by (simp add: runWrites_Cons)
  qed
qed

lemma addr_less: "i < j \<Longrightarrow> addr i < addr j"
  unfolding addr_def by (simp add: add_less_le_mono div_le_mono)

lemma addr_inj: "inj_on addr A"
proof (rule inj_onI)
  fix x y assume "addr x = addr y"
  then show "x = y"
    using addr_less [of x y] addr_less [of y x] by (cases x y rule: linorder_cases) simp_all
qed

lemma addr_not_alpha: "(addr i + 1) mod 4 \<noteq> 0"
  unfolding addr_def by presburger

lemma addr_ge: "42 \<le> addr i"
  unfolding addr_def by presburger

lemma concat_map_if:
  "concat (map (\<lambda>i. if P i then [f i] else []) xs) = map f (filter P xs)"
  by (induction xs) simp_all

lemma payloadWrites_eq:
  "payloadWrites n bits =
     map (\<lambda>i. (addr i, bits ! i)) (filter (\<lambda>i. addr i < n) [0..<length bits])"
proof -
  have "hideBit n (addr i) (bits ! i) = (if addr i < n then [(addr i, bits ! i)] else [])" for i
    using addr_not_alpha [of i] by (simp add: hideBit_def)
  then show ?thesis
    unfolding payloadWrites_def by (simp add: concat_map_if)
qed

lemma payloadWrites_fst:
  "map fst (payloadWrites n bits) = map addr (filter (\<lambda>i. addr i < n) [0..<length bits])"
  by (simp add: payloadWrites_eq comp_def)

lemma headerWrites_fst: "map fst (headerWrites h) = [0..<32]"
  by (simp add: headerWrites_def comp_def)

lemma distinct_payloadWrites: "distinct (map fst (payloadWrites n bits))"
  unfolding payloadWrites_fst by (simp add: distinct_map addr_inj)

lemma payloadWrites_range:
  "k \<in> fst ` set (payloadWrites n bits) \<Longrightarrow> 42 \<le> k \<and> k < n \<and> (k + 1) mod 4 \<noteq> 0"
  using addr_ge addr_not_alpha by (auto simp: payloadWrites_eq)

lemma distinct_hideWrites: "distinct (map fst (hideWrites C data text password))"
proof -
  have "set [0..<32] \<inter> fst ` set (payloadWrites n bits) = {}" for n bits
    using payloadWrites_range [of _ n bits] by fastforce
  then show ?thesis
    unfolding hideWrites_def Let_def
    by (simp add: headerWrites_fst distinct_payloadWrites del: upt_Suc set_upt)
qed

section \<open>The capacity check\<close>

lemma length_markers [simp]: "length ENC = 4" "length TXT = 4" "length EOF = 7"
  by (simp_all add: ENC_def TXT_def EOF_def lit_def)

lemma length_dataToHide:
  "length (dataToHide C text password) =
     11 + length (if password \<noteq> [] then encrypt C text password else text)"
  by (simp add: dataToHide_def)

text \<open>
  What the check of \<open>hideData\<close> compares: the framed length with \<open>maxDataSize\<close> itself.
\<close>

lemma hideData_check:
  "(hideData C data text password = Inl (CapacityExceeded (maxDataSize data)))
     = (maxDataSize data < length (dataToHide C text password))
   \<and> isl (hideData C data text password)
     = (maxDataSize data < length (dataToHide C text password))
   \<and> maxDataSize data = (3 * length data) div 32"
  by (simp add: hideData_def maxDataSize_div [symmetric])

section \<open>Bounds of the assignments\<close>

lemma hideData_Inr:
  "hideData C data text password = Inr out \<Longrightarrow>
   out = runWrites (hideWrites C data text password) data
   \<and> length (dataToHide C text password) \<le> maxDataSize data"
  by (auto simp: hideData_def split: if_splits)

lemma hideData_room:
  assumes "hideData C data text password = Inr out"
  shows "118 \<le> length data"
proof -
  from assms have "length (dataToHide C text password) \<le> (3 * length data) div 32"
    by (simp add: hideData_Inr maxDataSize_div [symmetric])
  then have "11 \<le> (3 * length data) div 32"
    by (simp add: length_dataToHide)
  then show ?thesis by arith
qed

lemma set_hideWrites:
  "set (hideWrites C data text password) =
     set (headerWrites (numberToBinary (length (dataToHide C text password)) 32))
     \<union> set (payloadWrites (length data) (textToBinary (dataToHide C text password)))"
  by (simp add: hideWrites_def Let_def)

lemma headerWrites_range: "w \<in> set (headerWrites h) \<Longrightarrow> fst w < 32"
  by (auto simp: headerWrites_def)

lemma payloadWrites_guard: "w \<in> set (payloadWrites n bits) \<Longrightarrow> fst w < n"
  using payloadWrites_range [of "fst w" n bits] by simp

lemma hideWrites_in_range:
  assumes "hideData C data text password = Inr out"
    and "w \<in> set (hideWrites C data text password)"
  shows "fst w < length data"
proof -
  from assms(2) consider
      "w \<in> set (headerWrites (numberToBinary (length (dataToHide C text password)) 32))"
    | "w \<in> set (payloadWrites (length data) (textToBinary (dataToHide C text password)))"
    unfolding set_hideWrites by blast
  then show ?thesis
  proof cases
    case 1
    then have "fst w < 32" by (rule headerWrites_range)
    with hideData_room [OF assms(1)] show ?thesis by simp
  next
    case 2
    then show ?thesis by (rule payloadWrites_guard)
  qed
qed

text \<open>
  C10: every assignment of \<open>hideData\<close> is inside the array. The payload loop assigns
  only under its guard \<^verbatim>\<open>dataIndex < data.length\<close>; the header loop assigns at 0 to 31
  without a guard, and these are inside because the framed text has at least 11 code
  units, so a passed capacity check leaves more than 32 samples (at least 120 when the
  length is a multiple of 4).
\<close>

theorem hideData_writes_in_bounds:
  assumes "hideData C data text password = Inr out"
  shows "(\<forall>w \<in> set (hideWrites C data text password). fst w < length data)
    \<and> (\<forall>w \<in> set (payloadWrites (length data) (textToBinary (dataToHide C text password))).
          fst w < length data)
    \<and> map fst (headerWrites (numberToBinary (length (dataToHide C text password)) 32))
        = [0..<32]
    \<and> 11 \<le> length (dataToHide C text password)
    \<and> 11 \<le> maxDataSize data
    \<and> 32 < length data
    \<and> (length data mod 4 = 0 \<longrightarrow> 120 \<le> length data)"
proof -
  have room: "118 \<le> length data"
    using assms by (rule hideData_room)
  have framed: "11 \<le> length (dataToHide C text password)"
    by (simp add: length_dataToHide)
  have cap: "11 \<le> maxDataSize data"
    using framed hideData_Inr [OF assms] by simp
  have payload: "\<forall>w \<in> set (payloadWrites (length data)
      (textToBinary (dataToHide C text password))). fst w < length data"
    by (simp add: payloadWrites_guard)
  have header: "\<forall>w \<in> set (headerWrites
      (numberToBinary (length (dataToHide C text password)) 32)). fst w < length data"
    using room headerWrites_range by fastforce
  have all: "\<forall>w \<in> set (hideWrites C data text password). fst w < length data"
    unfolding set_hideWrites using payload header by blast
  have mult: "length data mod 4 = 0 \<longrightarrow> 120 \<le> length data"
    using room by presburger
  from all payload framed cap room mult show ?thesis
    by (simp add: headerWrites_fst)
qed

lemma sample_hide:
  "hideData plain_cipher (replicate 128 0) (lit ''a'') []
     = Inr (runWrites (hideWrites plain_cipher (replicate 128 0) (lit ''a'') [])
              (replicate 128 0))"
  by (simp add: hideData_def length_dataToHide maxDataSize_div lit_def)

lemma sample_bits:
  "textToBinary (dataToHide plain_cipher (lit ''a'') [])
     = [False, True, False, True, False, True, False, False,
        False, True, False, True, True, False, False, False,
        False, True, False, True, False, True, False, False,
        False, False, True, True, True, False, True, False,
        False, True, True, False, False, False, False, True,
        False, False, True, True, True, True, False, False,
        False, False, True, True, True, True, False, False,
        False, True, False, False, False, True, False, True,
        False, True, False, False, True, True, True, True,
        False, True, False, False, False, True, True, False,
        False, False, True, True, True, True, True, False,
        False, False, True, True, True, True, True, False]"
  by code_simp

theorem hideData_writes_in_bounds_witness:
  "hideData plain_cipher (replicate 128 0) (lit ''a'') []
     = Inr (runWrites (hideWrites plain_cipher (replicate 128 0) (lit ''a'') [])
              (replicate 128 0))
   \<and> list_all (\<lambda>w. fst w < 128) (hideWrites plain_cipher (replicate 128 0) (lit ''a'') [])
   \<and> 32 < length (replicate 128 (0::8 word))"
  using hideData_writes_in_bounds [OF sample_hide] sample_hide by (simp add: list_all_iff)

section \<open>Alpha positions\<close>

text \<open>
  C9: no payload assignment is at an alpha position. Every index the payload loop
  assigns satisfies \<open>(k + 1) mod 4 \<noteq> 0\<close>, so the loop leaves every sample at an alpha
  position as it was, and \<open>hideData\<close> as a whole leaves every such sample from index 32 on
  as it was.
\<close>

theorem alpha_preservation:
  "(\<forall>w \<in> set (payloadWrites (length data) bits). (fst w + 1) mod 4 \<noteq> 0)
   \<and> ((j + 1) mod 4 = 0 \<longrightarrow>
        runWrites (payloadWrites (length data) bits) data ! j = data ! j)
   \<and> (hideData C data text password = Inr out \<and> 32 \<le> j \<and> (j + 1) mod 4 = 0 \<longrightarrow>
        out ! j = data ! j)"
proof -
  have a: "\<forall>w \<in> set (payloadWrites n bs). (fst w + 1) mod 4 \<noteq> 0" for n bs
    using payloadWrites_range [of _ n bs] by auto
  have b: "runWrites (payloadWrites n bs) d ! j = d ! j" if "(j + 1) mod 4 = 0" for n bs d
    using that a [of n bs] by (intro runWrites_untouched) auto
  have c: "out ! j = data ! j"
    if h: "hideData C data text password = Inr out" and j: "32 \<le> j" "(j + 1) mod 4 = 0"
  proof -
    have "j \<notin> fst ` set (headerWrites hd)" for hd
      using j headerWrites_range [of _ hd] by fastforce
    moreover have "j \<notin> fst ` set (payloadWrites n bs)" for n bs
      using j a [of n bs] by auto
    ultimately have "j \<notin> fst ` set (hideWrites C data text password)"
      unfolding set_hideWrites by blast
    then show ?thesis
      using hideData_Inr [OF h] by (simp add: runWrites_untouched)
  qed
  from a [of "length data" bits] b [of "length data" bits data] c show ?thesis
    by simp
qed

theorem alpha_preservation_witness:
  "(43 + 1) mod 4 = (0::nat)
   \<and> runWrites (payloadWrites 128 (textToBinary (dataToHide plain_cipher (lit ''a'') [])))
        (replicate 128 0) ! 43 = 0
   \<and> runWrites (hideWrites plain_cipher (replicate 128 0) (lit ''a'') [])
        (replicate 128 0) ! 43 = 0"
  using alpha_preservation [of "replicate 128 0"
      "textToBinary (dataToHide plain_cipher (lit ''a'') [])" 43 plain_cipher "lit ''a''" "[]"
      "runWrites (hideWrites plain_cipher (replicate 128 0) (lit ''a'') []) (replicate 128 0)"]
    sample_hide
  by simp

section \<open>Where the payload bits go\<close>

lemma payloadWrites_mem:
  "i < length bits \<Longrightarrow> addr i < n \<Longrightarrow> (addr i, bits ! i) \<in> set (payloadWrites n bits)"
  by (auto simp: payloadWrites_eq)

lemma hideData_high:
  "hideData C data text password = Inr out \<Longrightarrow> j < length data \<Longrightarrow>
   out ! j AND 0xFE = data ! j AND 0xFE"
  by (auto simp: hideData_def runWrites_high split: if_splits)

lemma hideData_stored:
  "hideData C data text password = Inr out \<Longrightarrow>
   (k, b) \<in> set (hideWrites C data text password) \<Longrightarrow> lsbAt out k = b"
proof -
  assume h: "hideData C data text password = Inr out"
    and m: "(k, b) \<in> set (hideWrites C data text password)"
  from hideWrites_in_range [OF h m] have "k < length data"
    by simp
  with m have "lsbAt (runWrites (hideWrites C data text password) data) k = b"
    by (intro runWrites_stored distinct_hideWrites)
  with hideData_Inr [OF h] show ?thesis
    by simp
qed

text \<open>
  C4: payload bit \<open>i\<close> goes to the sample at \<open>addr i = 32 + i + (32 + i) div 3\<close> when
  that index is inside the array and not an alpha position; the loop body assigns
  nothing for an index at an alpha position; and every sample keeps its bits 1 to 7.
\<close>

theorem payload_addressing:
  assumes "hideData C data text password = Inr out"
    and "bits = textToBinary (dataToHide C text password)"
  shows "payloadWrites (length data) bits =
           concat (map (\<lambda>i. hideBit (length data) (32 + i + (32 + i) div 3) (bits ! i))
                     [0..<length bits])
    \<and> (\<forall>i<length bits. (addr i + 1) mod 4 \<noteq> 0 \<and> addr i < length data \<longrightarrow>
          addr i = 32 + i + (32 + i) div 3
          \<and> hideBit (length data) (addr i) (bits ! i) = [(addr i, bits ! i)]
          \<and> lsbAt out (addr i) = bits ! i)
    \<and> (\<forall>k b. (k + 1) mod 4 = 0 \<longrightarrow> hideBit (length data) k b = [])
    \<and> (\<forall>j<length data. out ! j AND 0xFE = data ! j AND 0xFE)"
proof -
  have loop: "payloadWrites (length data) bits =
      concat (map (\<lambda>i. hideBit (length data) (32 + i + (32 + i) div 3) (bits ! i))
                [0..<length bits])"
    by (simp add: payloadWrites_def addr_def)
  have written: "addr i = 32 + i + (32 + i) div 3
      \<and> hideBit (length data) (addr i) (bits ! i) = [(addr i, bits ! i)]
      \<and> lsbAt out (addr i) = bits ! i"
    if "i < length bits" "(addr i + 1) mod 4 \<noteq> 0" "addr i < length data" for i
  proof -
    have "(addr i, bits ! i) \<in> set (hideWrites C data text password)"
      unfolding set_hideWrites using that assms(2) by (simp add: payloadWrites_mem)
    then have "lsbAt out (addr i) = bits ! i"
      using assms(1) by (rule hideData_stored [rotated])
    moreover have "hideBit (length data) (addr i) (bits ! i) = [(addr i, bits ! i)]"
      using that by (simp add: hideBit_def)
    ultimately show ?thesis by (simp add: addr_def)
  qed
  have skipped: "hideBit (length data) k b = []" if "(k + 1) mod 4 = 0" for k b
    using that by (simp add: hideBit_def)
  have high: "out ! j AND 0xFE = data ! j AND 0xFE" if "j < length data" for j
    using assms(1) that by (rule hideData_high)
  from loop written skipped high show ?thesis by blast
qed

theorem payload_addressing_witness:
  "hideData plain_cipher (replicate 128 (255::8 word)) (lit ''a'') []
     = Inr (runWrites (hideWrites plain_cipher (replicate 128 255) (lit ''a'') [])
              (replicate 128 255))
   \<and> (1::nat) < 96 \<and> (addr 1 + 1) mod 4 \<noteq> 0 \<and> addr 1 = 44 \<and> addr 1 < 128
   \<and> lsbAt (runWrites (hideWrites plain_cipher (replicate 128 255) (lit ''a'') [])
              (replicate 128 255)) 44 = True
   \<and> lsbAt (runWrites (hideWrites plain_cipher (replicate 128 255) (lit ''a'') [])
              (replicate 128 255)) 42 = False
   \<and> (3 + 1) mod 4 = (0::nat) \<and> hideBit 128 3 True = []
   \<and> runWrites (hideWrites plain_cipher (replicate 128 255) (lit ''a'') [])
        (replicate 128 255) ! 42 AND 0xFE = 0xFE"
proof -
  have h: "hideData plain_cipher (replicate 128 (255::8 word)) (lit ''a'') []
     = Inr (runWrites (hideWrites plain_cipher (replicate 128 255) (lit ''a'') [])
              (replicate 128 255))"
    by (simp add: hideData_def length_dataToHide maxDataSize_div lit_def)
  note t = payload_addressing [OF h sample_bits [symmetric]]
  note written = conjunct1 [OF conjunct2 [OF t], rule_format]
  note skipped = conjunct1 [OF conjunct2 [OF conjunct2 [OF t]], rule_format]
  note high = conjunct2 [OF conjunct2 [OF conjunct2 [OF t]], rule_format]
  have "lsbAt (runWrites (hideWrites plain_cipher (replicate 128 255) (lit ''a'') [])
              (replicate 128 255)) (addr 1) = True"
    using written [of 1] by (simp add: addr_def)
  moreover
  have "lsbAt (runWrites (hideWrites plain_cipher (replicate 128 255) (lit ''a'') [])
              (replicate 128 255)) (addr 0) = False"
    using written [of 0] by (simp add: addr_def)
  moreover
  have "hideBit 128 3 True = []"
    using skipped [of 3 True] by simp
  moreover
  have "runWrites (hideWrites plain_cipher (replicate 128 255) (lit ''a'') [])
        (replicate 128 255) ! 42 AND 0xFE = replicate 128 255 ! 42 AND 0xFE"
    using high [of 42] by simp
  ultimately show ?thesis
    using h by (simp add: addr_def)
qed

section \<open>The length header\<close>

lemma parseInt2_snoc: "parseInt2 (s @ [b]) = 2 * parseInt2 s + (if b then 1 else 0)"
  by (simp add: parseInt2_def)

lemma parseInt2_toString2: "parseInt2 (toString2 n) = n"
proof (induction n rule: toString2.induct)
  case (1 n)
  show ?case
  proof (cases "n < 2")
    case True
    then have "n = 0 \<or> n = 1" by arith
    then show ?thesis
      by (auto simp: toString2.simps [of 0] toString2.simps [of "Suc 0"] parseInt2_def)
  next
    case False
    with 1 have "parseInt2 (toString2 (n div 2)) = n div 2" by simp
    moreover from False have "toString2 n = toString2 (n div 2) @ [odd n]"
      by (subst toString2.simps) simp
    moreover have "2 * (n div 2) + (if odd n then 1 else 0) = n"
      by presburger
    ultimately show ?thesis
      by (simp only: parseInt2_snoc)
  qed
qed

lemma parseInt2_zeros: "parseInt2 (replicate k False @ s) = parseInt2 s"
proof -
  have "foldl (\<lambda>a b. 2 * a + (if b then 1 else 0)) (0::nat) (replicate k False) = 0"
    by (induction k) simp_all
  then show ?thesis by (simp add: parseInt2_def)
qed

lemma parseInt2_numberToBinary: "parseInt2 (numberToBinary n k) = n"
  by (simp add: numberToBinary_def padStart_def parseInt2_zeros parseInt2_toString2)

lemma length_toString2: "0 < k \<Longrightarrow> n < 2 ^ k \<Longrightarrow> length (toString2 n) \<le> k"
proof (induction n arbitrary: k rule: toString2.induct)
  case (1 n)
  show ?case
  proof (cases "n < 2")
    case True
    with 1 show ?thesis by (subst toString2.simps) simp
  next
    case False
    with "1.prems" obtain k' where k: "k = Suc k'" "0 < k'"
      by (cases k; cases "k - 1") auto
    with "1.prems" have "n div 2 < 2 ^ k'" by auto
    with "1.IH" [of k'] False k have "length (toString2 (n div 2)) \<le> k'" by simp
    with False k show ?thesis by (subst toString2.simps) simp
  qed
qed

lemma length_numberToBinary: "0 < k \<Longrightarrow> n < 2 ^ k \<Longrightarrow> length (numberToBinary n k) = k"
  using length_toString2 [of k n] by (simp add: numberToBinary_def padStart_def)

lemma headerWrites_mem: "i < 32 \<Longrightarrow> (i, h ! i) \<in> set (headerWrites h)"
  by (auto simp: headerWrites_def)

lemma readHeader_take:
  assumes "take 32 buf = take 32 out" and "32 \<le> length out"
  shows "readHeader buf = readHeader out"
proof -
  from assms have len: "32 \<le> length buf"
    by (metis length_take min.absorb2 min.cobounded1)
  have "lsbAt buf i = lsbAt out i" if "i < 32" for i
  proof -
    from that have "buf ! i = take 32 buf ! i" "out ! i = take 32 out ! i" by simp_all
    with assms(1) have "buf ! i = out ! i" by simp
    with that len assms(2) show ?thesis by (simp add: lsbAt_def)
  qed
  then have "map (lsbAt buf) [0..<32] = map (lsbAt out) [0..<32]"
    by (intro map_cong) (simp_all del: upt_Suc)
  then show ?thesis by (simp only: readHeader_def)
qed

lemma hideData_header_bits:
  assumes h: "hideData C data text password = Inr out"
    and small: "length (dataToHide C text password) < 2 ^ 32"
  shows "map (lsbAt out) [0..<32] = numberToBinary (length (dataToHide C text password)) 32"
proof -
  let ?h = "numberToBinary (length (dataToHide C text password)) 32"
  have len: "length ?h = 32"
    using small by (simp add: length_numberToBinary)
  have "lsbAt out i = ?h ! i" if "i < 32" for i
  proof -
    from that have "(i, ?h ! i) \<in> set (hideWrites C data text password)"
      unfolding set_hideWrites by (simp add: headerWrites_mem)
    with h show ?thesis by (rule hideData_stored)
  qed
  then have "map (lsbAt out) [0..<32] = map ((!) ?h) [0..<32]"
    by (intro map_cong) (simp_all del: upt_Suc)
  also have "\<dots> = ?h"
    using map_nth [of ?h] len by simp
  finally show ?thesis .
qed

text \<open>
  C5: \<open>hideData\<close> puts the 32 binary digits of the framed text's length, most
  significant first, into bit 0 of the samples 0 to 31, alpha positions included, and
  keeps bits 1 to 7 of these samples; \<open>extractData\<close> reads that length back from any
  array with the same first 32 samples. The framed length is below \<open>2^32\<close>, as the
  container's invariant has it.
\<close>

theorem header_fidelity:
  assumes "hideData C data text password = Inr out"
    and "length (dataToHide C text password) < 2 ^ 32"
  shows "map fst (headerWrites (numberToBinary (length (dataToHide C text password)) 32))
           = [0..<32]
    \<and> length (numberToBinary (length (dataToHide C text password)) 32) = 32
    \<and> parseInt2 (numberToBinary (length (dataToHide C text password)) 32)
        = length (dataToHide C text password)
    \<and> (\<forall>i<32. i < length out
          \<and> lsbAt out i = numberToBinary (length (dataToHide C text password)) 32 ! i
          \<and> out ! i AND 0xFE = data ! i AND 0xFE)
    \<and> readHeader out = length (dataToHide C text password)
    \<and> (\<forall>buf. take 32 buf = take 32 out \<longrightarrow>
          readHeader buf = length (dataToHide C text password))"
proof -
  let ?h = "numberToBinary (length (dataToHide C text password)) 32"
  have room: "32 < length data" "length out = length data"
    using hideData_room [OF assms(1)] hideData_Inr [OF assms(1)] by simp_all
  have bits: "map (lsbAt out) [0..<32] = ?h"
    using assms by (rule hideData_header_bits)
  have len: "length ?h = 32"
    using assms(2) by (simp add: length_numberToBinary)
  have each: "i < length out \<and> lsbAt out i = ?h ! i \<and> out ! i AND 0xFE = data ! i AND 0xFE"
    if "i < 32" for i
  proof -
    from that have "map (lsbAt out) [0..<32] ! i = lsbAt out i"
      by (simp del: upt_Suc)
    with bits have "lsbAt out i = ?h ! i" by simp
    moreover from that room have "out ! i AND 0xFE = data ! i AND 0xFE"
      by (intro hideData_high [OF assms(1)]) simp
    ultimately show ?thesis using that room by simp
  qed
  have rd: "readHeader out = length (dataToHide C text password)"
    unfolding readHeader_def bits by (rule parseInt2_numberToBinary)
  have anybuf: "readHeader buf = length (dataToHide C text password)"
    if "take 32 buf = take 32 out" for buf
    using readHeader_take [OF that] room rd by simp
  from len each rd anybuf show ?thesis
    by (simp add: headerWrites_fst parseInt2_numberToBinary del: upt_Suc)
qed

theorem header_fidelity_witness:
  "hideData plain_cipher (replicate 128 0) (lit ''a'') []
     = Inr (runWrites (hideWrites plain_cipher (replicate 128 0) (lit ''a'') [])
              (replicate 128 0))
   \<and> length (dataToHide plain_cipher (lit ''a'') []) < 2 ^ 32
   \<and> readHeader (runWrites (hideWrites plain_cipher (replicate 128 0) (lit ''a'') [])
                   (replicate 128 0)) = 12"
proof -
  have small: "length (dataToHide plain_cipher (lit ''a'') []) < 2 ^ 32"
    by (simp add: length_dataToHide lit_def)
  have "length (dataToHide plain_cipher (lit ''a'') []) = 12"
    by (simp add: length_dataToHide lit_def)
  with header_fidelity [OF sample_hide small] sample_hide small show ?thesis
    by simp
qed

section \<open>The collecting loop\<close>

lemma collectBits_exhausted_aux:
  assumes "collectBits data n i bitCount acc = Some y"
  shows "\<not> (length data \<le> i \<and> bitCount < n)"
proof (rule collectBits.raw_induct
    [where P = "\<lambda>d n i b a y. \<not> (length d \<le> i \<and> b < n)", OF _ assms])
  fix f :: "buffer \<Rightarrow> nat \<Rightarrow> nat \<Rightarrow> nat \<Rightarrow> binary \<Rightarrow> binary option"
    and d n i b a y
  assume IH: "\<And>d n i b a y. f d n i b a = Some y \<Longrightarrow> \<not> (length d \<le> i \<and> b < n)"
    and step: "(if b < n then
        (if (i + 1) mod 4 = 0 then f d n (i + 1) b a
         else if i < length d then f d n (i + 1) (b + 1) (a @ [d ! i AND 1 \<noteq> 0])
         else f d n (i + 1) b a)
      else Some a) = Some y"
  show "\<not> (length d \<le> i \<and> b < n)"
  proof
    assume e: "length d \<le> i \<and> b < n"
    with step have "f d n (i + 1) b a = Some y"
      by (simp split: if_splits)
    from IH [OF this] e show False by simp
  qed
qed

lemma collectBits_exhausted:
  "length data \<le> i \<Longrightarrow> bitCount < n \<Longrightarrow> collectBits data n i bitCount acc = None"
  using collectBits_exhausted_aux [of data n i bitCount acc]
  by (cases "collectBits data n i bitCount acc") auto

lemma slots_step:
  "i < n \<Longrightarrow> slots i n = (if (i + 1) mod 4 = 0 then [] else [i]) @ slots (i + 1) n"
  by (simp add: slots_def upt_conv_Cons)

lemma slots_empty: "n \<le> i \<Longrightarrow> slots i n = []"
  by (simp add: slots_def)

lemma collectBits_enough:
  "bitCount \<le> n \<Longrightarrow> n - bitCount \<le> length (slots i (length data)) \<Longrightarrow>
   collectBits data n i bitCount acc
     = Some (acc @ take (n - bitCount) (map (\<lambda>j. data ! j AND 1 \<noteq> 0) (slots i (length data))))"
proof (induction "length data - i" arbitrary: i bitCount acc)
  case 0
  then have "slots i (length data) = []" by (simp add: slots_empty)
  with 0 show ?case by (subst collectBits.simps) simp
next
  case (Suc k)
  then have i: "i < length data" by simp
  show ?case
  proof (cases "bitCount < n")
    case False
    with Suc.prems show ?thesis by (subst collectBits.simps) simp
  next
    case True
    note more = True
    show ?thesis
    proof (cases "(i + 1) mod 4 = 0")
      case True
      with i have s: "slots i (length data) = slots (i + 1) (length data)"
        by (simp add: slots_step)
      from Suc.hyps(2) have "k = length data - (i + 1)" by simp
      from Suc.hyps(1) [OF this, of bitCount acc] Suc.prems s
      have "collectBits data n (i + 1) bitCount acc
          = Some (acc @ take (n - bitCount)
                    (map (\<lambda>j. data ! j AND 1 \<noteq> 0) (slots i (length data))))"
        by simp
      with True more show ?thesis by (subst collectBits.simps) simp
    next
      case False
      with i have s: "slots i (length data) = i # slots (i + 1) (length data)"
        by (simp add: slots_step)
      from Suc.hyps(2) have "k = length data - (i + 1)" by simp
      from Suc.hyps(1) [OF this, of "bitCount + 1" "acc @ [data ! i AND 1 \<noteq> 0]"]
        Suc.prems s more
      have "collectBits data n (i + 1) (bitCount + 1) (acc @ [data ! i AND 1 \<noteq> 0])
          = Some ((acc @ [data ! i AND 1 \<noteq> 0]) @ take (n - (bitCount + 1))
                    (map (\<lambda>j. data ! j AND 1 \<noteq> 0) (slots (i + 1) (length data))))"
        by simp
      moreover from more have "n - bitCount = Suc (n - (bitCount + 1))" by simp
      ultimately show ?thesis
        using False more i s by (subst collectBits.simps) simp
    qed
  qed
qed

lemma collectBits_short:
  "bitCount \<le> n \<Longrightarrow> length (slots i (length data)) < n - bitCount \<Longrightarrow>
   collectBits data n i bitCount acc = None"
proof (induction "length data - i" arbitrary: i bitCount acc)
  case 0
  then show ?case by (intro collectBits_exhausted) simp_all
next
  case (Suc k)
  then have i: "i < length data" and more: "bitCount < n" by simp_all
  from Suc.hyps(2) have k: "k = length data - (i + 1)" by simp
  show ?case
  proof (cases "(i + 1) mod 4 = 0")
    case True
    with i have s: "slots i (length data) = slots (i + 1) (length data)"
      by (simp add: slots_step)
    from Suc.hyps(1) [OF k, of bitCount acc] Suc.prems s
    have "collectBits data n (i + 1) bitCount acc = None" by simp
    with True more show ?thesis by (subst collectBits.simps) simp
  next
    case False
    with i have s: "slots i (length data) = i # slots (i + 1) (length data)"
      by (simp add: slots_step)
    from Suc.hyps(1) [OF k, of "bitCount + 1" "acc @ [data ! i AND 1 \<noteq> 0]"] Suc.prems s more
    have "collectBits data n (i + 1) (bitCount + 1) (acc @ [data ! i AND 1 \<noteq> 0]) = None"
      by simp
    with False more i show ?thesis by (subst collectBits.simps) simp
  qed
qed

section \<open>The length check and the end of the collecting loop\<close>

lemma unframe_not_NoHiddenData: "unframe C extractedText password \<noteq> Inl NoHiddenData"
  by (auto simp: unframe_def deliver_def Let_def
      split: prod.splits dataType.splits option.splits if_splits)

lemma extractData_valid:
  "\<not> (readHeader data \<le> 0 \<or> rat_of_nat (readHeader data) > rat_of_nat (length data) / 4) \<Longrightarrow>
   extractData C data password =
     map_option (\<lambda>extractedBinary. unframe C (binaryToText extractedBinary) password)
       (collectBits data (readHeader data * 8) 32 0 [])"
  by (simp add: extractData_def Let_def split: option.splits)

lemma extractData_returns_iff:
  assumes "\<not> (readHeader data \<le> 0
             \<or> rat_of_nat (readHeader data) > rat_of_nat (length data) / 4)"
  shows "(extractData C data password = None)
           = (length (slots 32 (length data)) < readHeader data * 8)"
proof (cases "length (slots 32 (length data)) < readHeader data * 8")
  case True
  then have "collectBits data (readHeader data * 8) 32 0 [] = None"
    by (intro collectBits_short) simp_all
  with True show ?thesis by (simp add: extractData_valid [OF assms])
next
  case False
  then have "collectBits data (readHeader data * 8) 32 0 [] \<noteq> None"
    by (subst collectBits_enough) simp_all
  with False show ?thesis by (simp add: extractData_valid [OF assms])
qed

lemma short_buffer_header: "readHeader (replicate 31 0 @ 1 # replicate 4 0) = 1"
  by (simp add: readHeader_def lsbAt_def parseInt2_def upt_rec nth_append)

lemma short_buffer_slots: "slots 32 36 = [32, 33, 34]"
  by (simp add: slots_def upt_rec)

text \<open>
  C3, at a 3 by 3 image whose header reads 1: the length passes the check
  (\<open>0 < 1 \<le> 36 / 4\<close>), 8 bits are wanted, the array has 3 samples to give from index 32
  on, and the loop never ends.
\<close>

theorem collect_loop_never_ends:
  "readHeader (replicate 31 0 @ 1 # replicate 4 0) = 1
   \<and> \<not> (readHeader (replicate 31 0 @ 1 # replicate 4 0) \<le> 0
        \<or> rat_of_nat (readHeader (replicate 31 0 @ 1 # replicate 4 0))
            > rat_of_nat (length (replicate 31 (0::8 word) @ 1 # replicate 4 0)) / 4)
   \<and> collectBits (replicate 31 0 @ 1 # replicate 4 0) (1 * 8) 32 0 [] = None
   \<and> extractData plain_cipher (replicate 31 0 @ 1 # replicate 4 0) [] = None"
proof -
  let ?buf = "replicate 31 0 @ 1 # replicate 4 (0::8 word)"
  have v: "\<not> (readHeader ?buf \<le> 0 \<or> rat_of_nat (readHeader ?buf) > rat_of_nat (length ?buf) / 4)"
    by (simp add: short_buffer_header pixels_compare)
  have "length (slots 32 (length ?buf)) < 1 * 8"
    by (simp add: short_buffer_slots)
  then have c: "collectBits ?buf (1 * 8) 32 0 [] = None"
    by (intro collectBits_short) simp_all
  with v show ?thesis
    by (simp add: extractData_valid [OF v] short_buffer_header)
qed

text \<open>
  C6: \<open>extractData\<close> fails with \<open>NoHiddenData\<close> exactly when the header value is not
  positive or is more than \<^verbatim>\<open>data.length / 4\<close>; otherwise it goes on to the collecting
  loop, from index 32 with \<open>8 * length\<close> bits wanted, and hands what the loop returns to
  the unframing.
\<close>

theorem extractData_NoHiddenData_iff:
  "(extractData C data password = Some (Inl NoHiddenData))
     = (readHeader data \<le> 0 \<or> rat_of_nat (readHeader data) > rat_of_nat (length data) / 4)
   \<and> (\<not> (readHeader data \<le> 0
          \<or> rat_of_nat (readHeader data) > rat_of_nat (length data) / 4) \<longrightarrow>
        extractData C data password =
          map_option (\<lambda>extractedBinary. unframe C (binaryToText extractedBinary) password)
            (collectBits data (readHeader data * 8) 32 0 []))
   \<and> (rat_of_nat (readHeader data) > rat_of_nat (length data) / 4)
       = (length data < 4 * readHeader data)"
proof -
  have "extractData C data password \<noteq> Some (Inl NoHiddenData)"
    if v: "\<not> (readHeader data \<le> 0
             \<or> rat_of_nat (readHeader data) > rat_of_nat (length data) / 4)"
    using unframe_not_NoHiddenData by (auto simp: extractData_valid [OF v])
  moreover have "extractData C data password = Some (Inl NoHiddenData)"
    if "readHeader data \<le> 0 \<or> rat_of_nat (readHeader data) > rat_of_nat (length data) / 4"
    using that by (simp add: extractData_def Let_def)
  ultimately show ?thesis
    using extractData_valid [of data C password] pixels_compare by blast
qed

lemma blank_header: "readHeader (replicate 64 0) = 0"
  by (simp add: readHeader_def lsbAt_def parseInt2_def upt_rec)

lemma one_byte_header: "readHeader (replicate 31 0 @ 1 # replicate 12 0) = 1"
  by (simp add: readHeader_def lsbAt_def parseInt2_def upt_rec nth_append)

lemma one_byte_collect:
  "collectBits (replicate 31 0 @ 1 # replicate 12 0) 8 32 0 [] = Some (replicate 8 False)"
  by (simp add: collectBits.simps nth_append) (simp add: numeral_eq_Suc)

theorem extractData_NoHiddenData_iff_witness:
  "readHeader (replicate 64 0) \<le> 0
   \<and> extractData plain_cipher (replicate 64 0) [] = Some (Inl NoHiddenData)
   \<and> \<not> (readHeader (replicate 31 0 @ 1 # replicate 12 0) \<le> 0
        \<or> rat_of_nat (readHeader (replicate 31 0 @ 1 # replicate 12 0))
            > rat_of_nat (length (replicate 31 (0::8 word) @ 1 # replicate 12 0)) / 4)
   \<and> extractData plain_cipher (replicate 31 0 @ 1 # replicate 12 0) []
       = Some (unframe plain_cipher (binaryToText (replicate 8 False)) [])"
proof -
  let ?buf = "replicate 31 0 @ 1 # replicate 12 (0::8 word)"
  have v: "\<not> (readHeader ?buf \<le> 0 \<or> rat_of_nat (readHeader ?buf) > rat_of_nat (length ?buf) / 4)"
    by (simp add: one_byte_header pixels_compare)
  from extractData_NoHiddenData_iff [of plain_cipher "replicate 64 0" "[]"]
  have "extractData plain_cipher (replicate 64 0) [] = Some (Inl NoHiddenData)"
    by (simp add: blank_header)
  moreover
  from extractData_NoHiddenData_iff [of plain_cipher ?buf "[]"] v
  have "extractData plain_cipher ?buf []
       = Some (unframe plain_cipher (binaryToText (replicate 8 False)) [])"
    by (simp add: one_byte_header one_byte_collect)
  ultimately show ?thesis
    using v by (simp add: blank_header)
qed

section \<open>Hiding and extracting the text hello in an 8 by 8 image\<close>

lemma hello_hidden:
  "runWrites (hideWrites plain_cipher (replicate 256 0) (lit ''hello'') []) (replicate 256 0) =
 [0, 0, 0, 0, 0, 0, 0, 0, 0, 0, 0, 0, 0, 0, 0, 0, 0, 0, 0, 0, 0, 0, 0, 0, 0,
  0, 0, 1, 0, 0, 0, 0, 0, 0, 0, 0, 0, 0, 0, 0, 0, 0, 0, 0, 1, 0, 1, 0, 0, 1,
  0, 0, 0, 0, 1, 0, 0, 1, 1, 0, 0, 0, 0, 0, 0, 1, 0, 0, 1, 0, 1, 0, 0, 0, 0,
  0, 0, 1, 1, 0, 1, 0, 1, 0, 0, 0, 1, 0, 1, 0, 1, 0, 0, 0, 0, 0, 0, 1, 1, 0,
  0, 0, 1, 0, 0, 1, 0, 0, 1, 1, 0, 0, 1, 1, 0, 0, 0, 0, 1, 0, 1, 0, 1, 0, 1,
  0, 0, 0, 0, 1, 1, 0, 0, 1, 1, 0, 1, 1, 0, 0, 0, 1, 1, 0, 1, 1, 0, 0, 0, 0,
  0, 0, 1, 1, 1, 0, 1, 0, 0, 0, 0, 1, 0, 0, 0, 0, 1, 0, 0, 1, 0, 0, 1, 0, 0,
  0, 1, 1, 1, 0, 1, 0, 1, 0, 0, 0, 0, 0, 1, 1, 0, 0, 0, 0, 1, 0, 1, 1, 1, 0,
  1, 0, 0, 0, 0, 1, 1, 0, 1, 1, 1, 0, 0, 0, 0, 0, 0, 0, 0, 0, 0, 0, 0, 0, 0,
  0, 0, 0, 0, 0, 0, 0, 0, 0, 0, 0, 0, 0, 0, 0, 0, 0, 0, 0, 0, 0, 0, 0, 0, 0,
  0, 0, 0, 0, 0, 0]"
  by (simp add: hideWrites_def) code_simp


lemma hello_hide:
  "hideData plain_cipher (replicate 256 0) (lit ''hello'') []
     = Inr (runWrites (hideWrites plain_cipher (replicate 256 0) (lit ''hello'') [])
              (replicate 256 0))"
  by (simp add: hideData_def length_dataToHide maxDataSize_div lit_def)

lemma hello_header:
  "readHeader (runWrites (hideWrites plain_cipher (replicate 256 0) (lit ''hello'') [])
                 (replicate 256 0)) = 16"
  unfolding hello_hidden
  by (simp add: readHeader_def lsbAt_def parseInt2_def upt_rec)

lemma hello_collect:
  "collectBits (runWrites (hideWrites plain_cipher (replicate 256 0) (lit ''hello'') [])
                  (replicate 256 0)) (16 * 8) 32 0 []
     = Some ([False, False, False, False, False, False, False, False]
              @ textToBinary (lit ''TXT:hello<<EOF>''))"
proof -
  have "textToBinary (lit ''TXT:hello<<EOF>'') =
    [False, True, False, True, False, True, False, False, False, True, False, True, True,
     False, False, False, False, True, False, True, False, True, False, False, False, False,
     True, True, True, False, True, False, False, True, True, False, True, False, False,
     False, False, True, True, False, False, True, False, True, False, True, True, False,
     True, True, False, False, False, True, True, False, True, True, False, False, False,
     True, True, False, True, True, True, True, False, False, True, True, True, True, False,
     False, False, False, True, True, True, True, False, False, False, True, False, False,
     False, True, False, True, False, True, False, False, True, True, True, True, False,
     True, False, False, False, True, True, False, False, False, True, True, True, True,
     True, False]"
    by code_simp
  then show ?thesis
    unfolding hello_hidden by (simp add: collectBits.simps)
qed

lemma hello_text:
  "binaryToText ([False, False, False, False, False, False, False, False]
              @ textToBinary (lit ''TXT:hello<<EOF>''))
     = 0 # lit ''TXT:hello<<EOF>''"
  by code_simp

lemma hello_unframe:
  "unframe plain_cipher (0 # lit ''TXT:hello<<EOF>'') [] = Inr (lit ''hello<<EOF>'')"
  by code_simp

lemma hello_extract:
  "extractData plain_cipher
     (runWrites (hideWrites plain_cipher (replicate 256 0) (lit ''hello'') [])
        (replicate 256 0)) []
     = Some (Inr (lit ''hello<<EOF>''))"
proof -
  let ?out = "runWrites (hideWrites plain_cipher (replicate 256 0) (lit ''hello'') [])
        (replicate 256 0)"
  have v: "\<not> (readHeader ?out \<le> 0 \<or> rat_of_nat (readHeader ?out) > rat_of_nat (length ?out) / 4)"
    by (simp add: hello_header pixels_compare)
  show ?thesis
    by (simp only: extractData_valid [OF v] hello_header hello_collect option.map
        hello_text hello_unframe)
qed

lemma readHeader_hideData:
  assumes "hideData C data text password = Inr out"
    and "length (dataToHide C text password) < 2 ^ 32"
  shows "readHeader out = length (dataToHide C text password)"
  unfolding readHeader_def hideData_header_bits [OF assms]
  by (rule parseInt2_numberToBinary)

lemma sample_extract:
  "extractData plain_cipher
     (runWrites (hideWrites plain_cipher (replicate 128 0) (lit ''a'') [])
        (replicate 128 0)) [] = None"
proof -
  let ?out = "runWrites (hideWrites plain_cipher (replicate 128 0) (lit ''a'') [])
        (replicate 128 0)"
  have len: "length (dataToHide plain_cipher (lit ''a'') []) = 12"
    by (simp add: length_dataToHide lit_def)
  then have hd: "readHeader ?out = 12"
    using readHeader_hideData [OF sample_hide] by simp
  have v: "\<not> (readHeader ?out \<le> 0 \<or> rat_of_nat (readHeader ?out) > rat_of_nat (length ?out) / 4)"
    by (simp add: hd pixels_compare)
  have "length (slots 32 128) = 72"
    by (simp add: slots_def upt_rec)
  then show ?thesis
    by (simp add: extractData_returns_iff [OF v] hd)
qed

text \<open>
  C1, at two inputs without password. In an 8 by 8 image of zero samples the text
  \<^verbatim>\<open>hello\<close> fits, \<open>hideData\<close> succeeds and \<open>extractData\<close> returns \<^verbatim>\<open>hello<<EOF>\<close>, not
  \<^verbatim>\<open>hello\<close>. In a 4 by 8 image the text \<^verbatim>\<open>a\<close> fits exactly, \<open>hideData\<close> succeeds
  and \<open>extractData\<close> never returns.
\<close>

theorem hide_then_extract_differs:
  "length (dataToHide plain_cipher (lit ''hello'') []) \<le> maxDataSize (replicate 256 0)
   \<and> hideData plain_cipher (replicate 256 0) (lit ''hello'') []
       = Inr (runWrites (hideWrites plain_cipher (replicate 256 0) (lit ''hello'') [])
                (replicate 256 0))
   \<and> extractData plain_cipher
        (runWrites (hideWrites plain_cipher (replicate 256 0) (lit ''hello'') [])
           (replicate 256 0)) []
       = Some (Inr (lit ''hello<<EOF>''))
   \<and> lit ''hello<<EOF>'' \<noteq> lit ''hello''
   \<and> length (dataToHide plain_cipher (lit ''a'') []) \<le> maxDataSize (replicate 128 0)
   \<and> hideData plain_cipher (replicate 128 0) (lit ''a'') []
       = Inr (runWrites (hideWrites plain_cipher (replicate 128 0) (lit ''a'') [])
                (replicate 128 0))
   \<and> extractData plain_cipher
        (runWrites (hideWrites plain_cipher (replicate 128 0) (lit ''a'') [])
           (replicate 128 0)) [] = None"
proof -
  have "length (dataToHide plain_cipher (lit ''hello'') []) \<le> maxDataSize (replicate 256 0)"
    "length (dataToHide plain_cipher (lit ''a'') []) \<le> maxDataSize (replicate 128 0)"
    by (simp_all add: length_dataToHide maxDataSize_div lit_def)
  moreover have "lit ''hello<<EOF>'' \<noteq> lit ''hello''"
    by (simp add: lit_def)
  ultimately show ?thesis
    using hello_hide hello_extract sample_hide sample_extract by simp
qed

section \<open>Unframing\<close>

lemma startsWith_length: "startsWith s p \<Longrightarrow> length p \<le> length s"
proof -
  assume "startsWith s p"
  then have "length (take (length p) s) = length p"
    by (simp only: startsWith_def)
  then show ?thesis by simp
qed

lemma indexOf_Some:
  "indexOf s p = Some i \<Longrightarrow> i + length p \<le> length s \<and> take (length p) (drop i s) = p"
proof (induction s arbitrary: i)
  case Nil
  then show ?case by (simp split: if_splits)
next
  case (Cons c s)
  show ?case
  proof (cases "startsWith (c # s) p")
    case True
    with Cons.prems have "i = 0" by simp
    with True startsWith_length [OF True] show ?thesis
      by (simp add: startsWith_def)
  next
    case False
    with Cons.prems obtain j where j: "indexOf s p = Some j" "i = Suc j"
      by (auto split: option.splits)
    with Cons.IH [of j] show ?thesis by simp
  qed
qed

lemma startsWith_take:
  "length p \<le> n \<Longrightarrow> startsWith (take n s) p = startsWith s p"
  by (simp add: startsWith_def min_def)

lemma indexOf_take: "indexOf (take n s) p = Some i \<Longrightarrow> indexOf s p = Some i"
proof (induction s arbitrary: n i)
  case Nil
  then show ?case by simp
next
  case (Cons c s)
  show ?case
  proof (cases n)
    case 0
    with Cons.prems have "p = []" "i = 0" by (simp_all split: if_splits)
    then show ?thesis by (simp add: startsWith_def)
  next
    case (Suc m)
    show ?thesis
    proof (cases "startsWith (c # take m s) p")
      case True
      from startsWith_length [OF True] have "length p \<le> Suc m" by simp
      with True Suc have "startsWith (c # s) p"
        using startsWith_take [of p "Suc m" "c # s"] by simp
      moreover from True Cons.prems Suc have "i = 0" by simp
      ultimately show ?thesis by simp
    next
      case False
      with Cons.prems Suc obtain j where j: "indexOf (take m s) p = Some j" "i = Suc j"
        by (auto split: option.splits)
      from indexOf_Some [OF j(1)] have "length p \<le> Suc m" by simp
      with False have "\<not> startsWith (c # s) p"
        using startsWith_take [of p "Suc m" "c # s"] by simp
      with Cons.IH [OF j(1)] j(2) show ?thesis by simp
    qed
  qed
qed

lemma includesStr_take: "includesStr (take n s) p \<Longrightarrow> includesStr s p"
proof -
  assume "includesStr (take n s) p"
  then obtain i where "indexOf (take n s) p = Some i"
    by (auto simp: includesStr_def)
  then have "indexOf s p = Some i" by (rule indexOf_take)
  then show ?thesis by (simp add: includesStr_def)
qed

lemma includesStr_cleanText:
  "includesStr (cleanTextOf extractedText) p \<Longrightarrow>
   includesStr extractedText EOF \<or> includesStr extractedText p"
  by (simp add: cleanTextOf_def split: if_splits)

lemma unframe_passed:
  "includesStr extractedText EOF \<or> includesStr extractedText TXT \<or> includesStr extractedText ENC
   \<Longrightarrow> unframe C extractedText password =
     deliver C (fst (inferFormat (cleanTextOf extractedText)))
       (snd (inferFormat (cleanTextOf extractedText))) (cleanTextOf extractedText) password"
  by (elim disjE) (simp_all add: unframe_def Let_def case_prod_beta)

lemma deliver_tagged:
  "dt \<noteq> Unknown \<Longrightarrow> deliver C dt processedText cleanText password \<noteq> Inl DecodeAmbiguous
     \<and> deliver C dt processedText cleanText password \<noteq> Inl NoFormatOrEndMarker
     \<and> deliver C dt processedText cleanText password \<noteq> Inl NoHiddenData"
  by (cases dt) (auto simp: deliver_def split: option.splits)

lemma found_in_first_20:
  assumes "includesStr (take 20 cleanText) marker" and "length marker = 4"
  obtains i where "indexOf cleanText marker = Some i" "i + 4 \<le> 20"
    "take 4 (drop i cleanText) = marker"
proof -
  from assms(1) obtain i where i: "indexOf (take 20 cleanText) marker = Some i"
    by (auto simp: includesStr_def)
  from indexOf_Some [OF i] assms(2) have "i + 4 \<le> 20" by simp
  moreover from i have "indexOf cleanText marker = Some i" by (rule indexOf_take)
  moreover from indexOf_Some [OF this] assms(2) have "take 4 (drop i cleanText) = marker"
    by simp
  ultimately show ?thesis using that by blast
qed

lemma inferFormat_found:
  assumes "\<not> startsWith cleanText ENC" and "\<not> startsWith cleanText TXT"
    and "includesStr (take 20 cleanText) ENC \<or> includesStr (take 20 cleanText) TXT"
    and "(marker, tag) = (if includesStr (take 20 cleanText) ENC then (ENC, Encrypted)
                          else (TXT, Plaintext))"
  obtains i where "indexOf cleanText marker = Some i" "i + 4 \<le> 20"
    "take 4 (drop i cleanText) = marker" "inferFormat cleanText = (tag, drop (i + 4) cleanText)"
    "includesStr cleanText marker" "tag \<noteq> Unknown"
proof (cases "includesStr (take 20 cleanText) ENC")
  case True
  with assms(4) have m: "marker = ENC" "tag = Encrypted" by simp_all
  from True obtain i where i: "indexOf cleanText ENC = Some i" "i + 4 \<le> 20"
      "take 4 (drop i cleanText) = ENC"
    by (rule found_in_first_20) simp
  with assms(1,2) True have "inferFormat cleanText = (Encrypted, drop (i + 4) cleanText)"
    by (simp add: inferFormat_def)
  moreover from True have "includesStr cleanText ENC" by (rule includesStr_take)
  ultimately show ?thesis using that [of i] i m by simp
next
  case False
  with assms(3,4) have m: "marker = TXT" "tag = Plaintext"
    and t: "includesStr (take 20 cleanText) TXT" by simp_all
  from t obtain i where i: "indexOf cleanText TXT = Some i" "i + 4 \<le> 20"
      "take 4 (drop i cleanText) = TXT"
    by (rule found_in_first_20) simp
  with assms(1,2) False t have "inferFormat cleanText = (Plaintext, drop (i + 4) cleanText)"
    by (simp add: inferFormat_def)
  moreover from t have "includesStr cleanText TXT" by (rule includesStr_take)
  ultimately show ?thesis using that [of i] i m by simp
qed

text \<open>
  C7: when the text before the end marker starts with neither prefix but one of them
  occurs in its first 20 characters (\<^verbatim>\<open>ENC:\<close> is looked for first), \<open>extractData\<close> takes
  the text after the first occurrence of that prefix, with the data type of the prefix,
  and delivers it as it delivers a text with the prefix in front: a plain text is
  resolved as it is, and neither of the two format errors is thrown.
\<close>

theorem tag_recovery:
  assumes "\<not> (readHeader data \<le> 0
             \<or> rat_of_nat (readHeader data) > rat_of_nat (length data) / 4)"
    and "collectBits data (readHeader data * 8) 32 0 [] = Some extractedBinary"
    and "cleanText = cleanTextOf (binaryToText extractedBinary)"
    and "\<not> startsWith cleanText ENC" and "\<not> startsWith cleanText TXT"
    and "includesStr (take 20 cleanText) ENC \<or> includesStr (take 20 cleanText) TXT"
    and "(marker, tag) = (if includesStr (take 20 cleanText) ENC then (ENC, Encrypted)
                          else (TXT, Plaintext))"
  shows "\<exists>i. indexOf cleanText marker = Some i \<and> i + 4 \<le> 20
      \<and> take 4 (drop i cleanText) = marker
      \<and> inferFormat cleanText = (tag, drop (i + 4) cleanText)
      \<and> extractData C data password
          = Some (deliver C tag (drop (i + 4) cleanText) cleanText password)
      \<and> extractData C data password \<noteq> Some (Inl DecodeAmbiguous)
      \<and> extractData C data password \<noteq> Some (Inl NoFormatOrEndMarker)
      \<and> (tag = Plaintext \<longrightarrow>
           extractData C data password = Some (Inr (drop (i + 4) cleanText)))"
proof -
  let ?t = "binaryToText extractedBinary"
  from assms(4-7) obtain i where i: "indexOf cleanText marker = Some i" "i + 4 \<le> 20"
    "take 4 (drop i cleanText) = marker" "inferFormat cleanText = (tag, drop (i + 4) cleanText)"
    "includesStr cleanText marker" "tag \<noteq> Unknown"
    by (rule inferFormat_found)
  have "marker = ENC \<or> marker = TXT"
    using assms(7) by (simp split: if_splits)
  with i(5) assms(3) have "includesStr ?t EOF \<or> includesStr ?t TXT \<or> includesStr ?t ENC"
    using includesStr_cleanText [of ?t marker] by auto
  then have "unframe C ?t password
      = deliver C tag (drop (i + 4) cleanText) cleanText password"
    using i(4) assms(3) by (simp add: unframe_passed)
  with assms(1,2) have e: "extractData C data password
      = Some (deliver C tag (drop (i + 4) cleanText) cleanText password)"
    by (simp add: extractData_valid)
  have "tag = Plaintext \<longrightarrow>
      deliver C tag (drop (i + 4) cleanText) cleanText password = Inr (drop (i + 4) cleanText)"
    by (simp add: deliver_def)
  with e i deliver_tagged [OF i(6), of C "drop (i + 4) cleanText" cleanText password]
  show ?thesis by auto
qed

lemma hello_clean:
  "cleanTextOf (binaryToText ([False, False, False, False, False, False, False, False]
              @ textToBinary (lit ''TXT:hello<<EOF>''))) = 0 # lit ''TXT:hello<<EOF>''"
  by code_simp

lemma hello_search:
  "\<not> startsWith (0 # lit ''TXT:hello<<EOF>'') ENC"
  "\<not> startsWith (0 # lit ''TXT:hello<<EOF>'') TXT"
  "\<not> includesStr (take 20 (0 # lit ''TXT:hello<<EOF>'')) ENC"
  "includesStr (take 20 (0 # lit ''TXT:hello<<EOF>'')) TXT"
  "indexOf (0 # lit ''TXT:hello<<EOF>'') TXT = Some 1"
  "drop (1 + 4) (0 # lit ''TXT:hello<<EOF>'') = lit ''hello<<EOF>''"
  by code_simp+

theorem tag_recovery_witness:
  "\<not> startsWith (0 # lit ''TXT:hello<<EOF>'') ENC
   \<and> \<not> startsWith (0 # lit ''TXT:hello<<EOF>'') TXT
   \<and> includesStr (take 20 (0 # lit ''TXT:hello<<EOF>'')) TXT
   \<and> indexOf (0 # lit ''TXT:hello<<EOF>'') TXT = Some 1
   \<and> extractData plain_cipher
        (runWrites (hideWrites plain_cipher (replicate 256 0) (lit ''hello'') [])
           (replicate 256 0)) []
       = Some (Inr (drop (1 + 4) (0 # lit ''TXT:hello<<EOF>'')))"
proof -
  let ?out = "runWrites (hideWrites plain_cipher (replicate 256 0) (lit ''hello'') [])
        (replicate 256 0)"
  let ?ct = "0 # lit ''TXT:hello<<EOF>''"
  have v: "\<not> (readHeader ?out \<le> 0 \<or> rat_of_nat (readHeader ?out) > rat_of_nat (length ?out) / 4)"
    by (simp add: hello_header pixels_compare)
  have c: "collectBits ?out (readHeader ?out * 8) 32 0 []
      = Some ([False, False, False, False, False, False, False, False]
              @ textToBinary (lit ''TXT:hello<<EOF>''))"
    by (simp only: hello_header hello_collect)
  have p: "(TXT, Plaintext) = (if includesStr (take 20 ?ct) ENC then (ENC, Encrypted)
                               else (TXT, Plaintext))"
    using hello_search(3) by simp
  have f: "includesStr (take 20 ?ct) ENC \<or> includesStr (take 20 ?ct) TXT"
    using hello_search(4) by simp
  from tag_recovery [OF v c hello_clean [symmetric] hello_search(1) hello_search(2) f p,
      of plain_cipher "[]"]
  obtain i where "indexOf ?ct TXT = Some i"
    and "extractData plain_cipher ?out [] = Some (Inr (drop (i + 4) ?ct))"
    by auto
  with hello_search(5) have "extractData plain_cipher ?out [] = Some (Inr (drop (1 + 4) ?ct))"
    by simp
  with hello_search show ?thesis by simp
qed

section \<open>Texts without a recognised prefix\<close>

lemma one_byte_unframe:
  "unframe plain_cipher (binaryToText (replicate 8 False)) [] = Inl NoFormatOrEndMarker"
  "fst (inferFormat (cleanTextOf (binaryToText (replicate 8 False)))) = Unknown"
  "\<not> 10 < length (filter printable (cleanTextOf (binaryToText (replicate 8 False))))"
  by code_simp+

theorem unknown_format_counterexample:
  "collectBits (replicate 31 0 @ 1 # replicate 12 0)
     (readHeader (replicate 31 0 @ 1 # replicate 12 0) * 8) 32 0 [] = Some (replicate 8 False)
   \<and> fst (inferFormat (cleanTextOf (binaryToText (replicate 8 False)))) = Unknown
   \<and> \<not> 10 < length (filter printable (cleanTextOf (binaryToText (replicate 8 False))))
   \<and> extractData plain_cipher (replicate 31 0 @ 1 # replicate 12 0) []
       = Some (Inl NoFormatOrEndMarker)
   \<and> extractData plain_cipher (replicate 31 0 @ 1 # replicate 12 0) []
       \<noteq> Some (Inl DecodeAmbiguous)"
proof -
  let ?buf = "replicate 31 0 @ 1 # replicate 12 (0::8 word)"
  have v: "\<not> (readHeader ?buf \<le> 0 \<or> rat_of_nat (readHeader ?buf) > rat_of_nat (length ?buf) / 4)"
    by (simp add: one_byte_header pixels_compare)
  have "extractData plain_cipher ?buf [] = Some (Inl NoFormatOrEndMarker)"
    by (simp add: extractData_valid [OF v] one_byte_header one_byte_collect one_byte_unframe)
  then show ?thesis
    by (simp add: one_byte_header one_byte_collect one_byte_unframe)
qed

text \<open>
  C8, as amended: when no data type is recognised, \<open>extractData\<close> first fails with
  \<open>NoFormatOrEndMarker\<close> if the extracted text holds neither the end marker nor a prefix
  anywhere; otherwise it removes what is not printable ASCII from the text before the end
  marker, resolves with \<^verbatim>\<open>Partial recovery: \<close> in front if more than 10 characters
  remain, and fails with \<open>DecodeAmbiguous\<close> if not.
\<close>

theorem unknown_format_fallback:
  assumes "\<not> (readHeader data \<le> 0
             \<or> rat_of_nat (readHeader data) > rat_of_nat (length data) / 4)"
    and "collectBits data (readHeader data * 8) 32 0 [] = Some extractedBinary"
    and "extractedText = binaryToText extractedBinary"
    and "cleanText = cleanTextOf extractedText"
    and "fst (inferFormat cleanText) = Unknown"
  shows "extractData C data password = Some
     (if \<not> includesStr extractedText EOF \<and> \<not> includesStr extractedText TXT
         \<and> \<not> includesStr extractedText ENC
      then Inl NoFormatOrEndMarker
      else if 10 < length (filter printable cleanText)
      then Inr (lit ''Partial recovery: '' @ filter printable cleanText)
      else Inl DecodeAmbiguous)"
proof (cases "includesStr extractedText EOF \<or> includesStr extractedText TXT
    \<or> includesStr extractedText ENC")
  case True
  then have "unframe C extractedText password
      = deliver C Unknown (snd (inferFormat cleanText)) cleanText password"
    using assms(4,5) by (simp add: unframe_passed)
  with True assms(1-3) show ?thesis
    by (auto simp: extractData_valid deliver_def Let_def)
next
  case False
  then have "unframe C extractedText password = Inl NoFormatOrEndMarker"
    by (simp add: unframe_def)
  with False assms(1-3) show ?thesis
    by (simp add: extractData_valid)
qed

lemma recovery_header: "readHeader recovery_image = 18"
  unfolding recovery_image_def
  by (simp add: readHeader_def lsbAt_def parseInt2_def upt_rec)

lemma recovery_bits:
  "textToBinary (lit ''hello world<<EOF>>'') =
    [False, True, True, False, True, False, False, False,
     False, True, True, False, False, True, False, True,
     False, True, True, False, True, True, False, False,
     False, True, True, False, True, True, False, False,
     False, True, True, False, True, True, True, True,
     False, False, True, False, False, False, False, False,
     False, True, True, True, False, True, True, True,
     False, True, True, False, True, True, True, True,
     False, True, True, True, False, False, True, False,
     False, True, True, False, True, True, False, False,
     False, True, True, False, False, True, False, False,
     False, False, True, True, True, True, False, False,
     False, False, True, True, True, True, False, False,
     False, True, False, False, False, True, False, True,
     False, True, False, False, True, True, True, True,
     False, True, False, False, False, True, True, False,
     False, False, True, True, True, True, True, False,
     False, False, True, True, True, True, True, False]"
  by code_simp

lemma recovery_collect:
  "collectBits recovery_image (18 * 8) 32 0 [] = Some (textToBinary (lit ''hello world<<EOF>>''))"
  unfolding recovery_bits recovery_image_def by (simp add: collectBits.simps)

lemma recovery_text:
  "binaryToText (textToBinary (lit ''hello world<<EOF>>'')) = lit ''hello world<<EOF>>''"
  "cleanTextOf (lit ''hello world<<EOF>>'') = lit ''hello world''"
  "fst (inferFormat (lit ''hello world'')) = Unknown"
  "includesStr (lit ''hello world<<EOF>>'') EOF"
  "filter printable (lit ''hello world'') = lit ''hello world''"
  "10 < length (lit ''hello world'')"
  by code_simp+

theorem unknown_format_fallback_witness:
  "fst (inferFormat (cleanTextOf (lit ''hello world<<EOF>>''))) = Unknown
   \<and> extractData plain_cipher recovery_image []
       = Some (Inr (lit ''Partial recovery: '' @ lit ''hello world''))"
proof -
  have v: "\<not> (readHeader recovery_image \<le> 0
      \<or> rat_of_nat (readHeader recovery_image) > rat_of_nat (length recovery_image) / 4)"
    by (simp add: recovery_header pixels_compare) (simp add: recovery_image_def)
  have c: "collectBits recovery_image (readHeader recovery_image * 8) 32 0 []
      = Some (textToBinary (lit ''hello world<<EOF>>''))"
    by (simp only: recovery_header recovery_collect)
  have u: "fst (inferFormat (lit ''hello world'')) = Unknown"
    by (rule recovery_text(3))
  from unknown_format_fallback [OF v c recovery_text(1) [symmetric]
      recovery_text(2) [symmetric] u, of plain_cipher "[]"]
  show ?thesis
    by (simp only: recovery_text simp_thms if_True if_False)
qed

section \<open>The older copy at a searched prefix\<close>

lemma unframe_older_search:
  assumes "cleanText = cleanTextOf extractedText"
    and "\<not> startsWith cleanText ENC" and "\<not> startsWith cleanText TXT"
    and "includesStr (take 20 cleanText) ENC \<or> includesStr (take 20 cleanText) TXT"
  shows "unframe_older C extractedText password = Inl ConstAssignment"
proof -
  from assms(4) have "includesStr cleanText ENC \<or> includesStr cleanText TXT"
    using includesStr_take by blast
  with assms(1) have "includesStr extractedText EOF \<or> includesStr extractedText TXT
      \<or> includesStr extractedText ENC"
    using includesStr_cleanText by blast
  with assms show ?thesis
    by (auto simp: unframe_older_def Let_def)
qed

lemma unframe_older_prefix:
  assumes "cleanText = cleanTextOf extractedText"
    and "startsWith cleanText ENC \<or> startsWith cleanText TXT
         \<or> \<not> (includesStr (take 20 cleanText) ENC \<or> includesStr (take 20 cleanText) TXT)"
  shows "unframe_older C extractedText password = unframe C extractedText password"
  using assms
  by (auto simp: unframe_older_def unframe_def inferFormat_def deliver_older_def deliver_def
      Let_def)

section \<open>The capacity check and the room the header takes\<close>

lemma addr_le: "i \<le> j \<Longrightarrow> addr i \<le> addr j"
  unfolding addr_def by (simp add: add_mono div_le_mono)

lemma last_addr_fits:
  assumes "0 < L"
  shows "(addr (8 * L - 1) < 4 * p) = (L + 4 \<le> (3 * (4 * p)) div 32)"
proof -
  define k where "k = 8 * L + 31"
  from assms have a: "addr (8 * L - 1) = k + k div 3"
    by (simp add: addr_def k_def add.commute)
  have "(k + k div 3 < 4 * p) = (k < 3 * p)"
    by arith
  also have "\<dots> = (8 * L + 32 \<le> 3 * p)"
    by (simp add: k_def) arith
  also have "\<dots> = (L + 4 \<le> (3 * (4 * p)) div 32)"
    by arith
  finally show ?thesis by (simp only: a)
qed


lemma payload_fits_iff:
  assumes "length data mod 4 = 0" and "0 < L"
  shows "(\<forall>i < 8 * L. addr i < length data) = (L + 4 \<le> maxDataSize data)"
proof -
  from assms(1) obtain p where p: "length data = 4 * p"
    by (auto simp: mod_eq_0_iff_dvd)
  have "(\<forall>i < 8 * L. addr i < length data) = (addr (8 * L - 1) < length data)"
  proof
    assume "\<forall>i < 8 * L. addr i < length data"
    with assms(2) show "addr (8 * L - 1) < length data" by simp
  next
    assume a: "addr (8 * L - 1) < length data"
    show "\<forall>i < 8 * L. addr i < length data"
    proof (intro allI impI)
      fix i assume "i < 8 * L"
      then have "addr i \<le> addr (8 * L - 1)" by (intro addr_le) simp
      with a show "addr i < length data" by simp
    qed
  qed
  also have "\<dots> = (L + 4 \<le> (3 * length data) div 32)"
    unfolding p using assms(2) by (rule last_addr_fits)
  finally show ?thesis by (simp only: maxDataSize_div)
qed

lemma sample_written:
  "length (textToBinary (dataToHide plain_cipher (lit ''a'') [])) = 96"
  "length (payloadWrites 128 (textToBinary (dataToHide plain_cipher (lit ''a'') []))) = 64"
  by code_simp+

text \<open>
  C2, at a 4 by 8 image of zero samples and the text \<^verbatim>\<open>a\<close> without password. The
  framed text has 12 characters, which is \<open>maxDataSize\<close> and more than \<open>maxDataSize\<close> less
  the 4 bytes of the header. \<open>hideData\<close> does not fail: it stores 64 of the 96 payload
  bits, the other 32 having an address past the end, and \<open>extractData\<close> on the result
  never returns. By \<open>payload_fits_iff\<close>, all payload bits have an address inside the array
  exactly when the framed length is at most \<open>maxDataSize\<close> less 4.
\<close>

theorem capacity_check_ignores_header:
  "length (dataToHide plain_cipher (lit ''a'') []) = 12
   \<and> maxDataSize (replicate 128 0) = 12
   \<and> int (maxDataSize (replicate 128 0)) - 4
        < int (length (dataToHide plain_cipher (lit ''a'') []))
   \<and> \<not> isl (hideData plain_cipher (replicate 128 0) (lit ''a'') [])
   \<and> hideData plain_cipher (replicate 128 0) (lit ''a'') []
       = Inr (runWrites (hideWrites plain_cipher (replicate 128 0) (lit ''a'') [])
                (replicate 128 0))
   \<and> length (textToBinary (dataToHide plain_cipher (lit ''a'') [])) = 96
   \<and> length (payloadWrites (length (replicate 128 (0::8 word)))
               (textToBinary (dataToHide plain_cipher (lit ''a'') []))) = 64
   \<and> extractData plain_cipher
        (runWrites (hideWrites plain_cipher (replicate 128 0) (lit ''a'') [])
           (replicate 128 0)) [] = None"
proof -
  have "length (dataToHide plain_cipher (lit ''a'') []) = 12"
    by (simp add: length_dataToHide lit_def)
  moreover have "maxDataSize (replicate 128 0) = 12"
    by (simp add: maxDataSize_div)
  ultimately show ?thesis
    using sample_hide sample_extract sample_written by simp
qed

end
